theory Spec2Isabelle
  imports Main "HOL-Library.AList" "HOL-Library.List_Lexorder"
begin

section \<open>getPermissions.py: joining command aliases with permission nodes\<close>

text \<open>
  The script reads two JSON files, builds the dictionary \<open>ALIASES\<close> from the command
  records, builds the dictionary \<open>commands\<close> from the permission records, and prints one
  line per command name and alias. The model below follows the script loop by loop.
\<close>

subsection \<open>Values\<close>

text \<open>
  A Python \<open>str\<close> is a sequence of Unicode code points: \<open>len\<close> counts code points and
  \<open>sorted\<close> compares strings code point by code point, a proper prefix being smaller.
  So a string is a list of code points, with the lexicographic order on lists.
\<close>

type_synonym pystr = "nat list"

definition str :: "string \<Rightarrow> pystr" where
  "str s = map of_char s"

text \<open>
  A field of a record is a JSON string or \<open>null\<close> (Python \<open>None\<close>), as in the data the
  script is written for. A record is a JSON array of any length: the \<open>for\<close> statements
  unpack it into exactly five (commands) or four (permissions) names.
\<close>

datatype json = JNull | JStr pystr

type_synonym row = "json list"

text \<open>
  \<open>ValueError\<close> is what tuple unpacking raises on a record of the wrong length,
  \<open>KeyError\<close> what a dictionary subscript raises on a missing key, and
  \<open>UnicodeEncodeError\<close> what \<open>print\<close> raises on a line that standard output cannot encode.
\<close>

datatype error = ValueError | KeyError | UnicodeEncodeError

text \<open>A dictionary keeps insertion order; assigning to a present key keeps its place.\<close>

type_synonym aliases = "(json \<times> pystr list) list"
type_synonym nodes = "(pystr \<times> pystr) list"

subsection \<open>\<open>str.split(",")\<close> and \<open>str.strip()\<close>\<close>

definition comma :: nat where
  "comma = 44"

fun split_comma :: "pystr \<Rightarrow> pystr list" where
  "split_comma [] = [[]]"
| "split_comma (c # cs) =
     (if c = comma then [] # split_comma cs
      else (case split_comma cs of
              [] \<Rightarrow> [[c]]
            | p # ps \<Rightarrow> (c # p) # ps))"

text \<open>The code points for which \<open>str.isspace\<close> holds; \<open>strip()\<close> removes them at both ends.\<close>

definition isspace :: "nat \<Rightarrow> bool" where
  "isspace c \<longleftrightarrow>
     (9 \<le> c \<and> c \<le> 13) \<or> (28 \<le> c \<and> c \<le> 32) \<or> c = 133 \<or> c = 160 \<or> c = 5760 \<or>
     (8192 \<le> c \<and> c \<le> 8202) \<or> c = 8232 \<or> c = 8233 \<or> c = 8239 \<or> c = 8287 \<or> c = 12288"

definition strip :: "pystr \<Rightarrow> pystr" where
  "strip s = rev (dropWhile isspace (rev (dropWhile isspace s)))"

subsection \<open>The loop over the command records (lines 11 to 15)\<close>

text \<open>
  \<open>not rawAliases\<close> holds for \<open>None\<close> and for the empty string; the record is then skipped.
  Otherwise \<open>ALIASES[cmd]\<close> is assigned; \<open>cmd\<close> may be any field, \<open>None\<close> included.
\<close>

fun aliases_step :: "aliases \<Rightarrow> row \<Rightarrow> error + aliases" where
  "aliases_step ALIASES [pl, cmd, rawAliases, desc, helpText] =
     (case rawAliases of
        JNull \<Rightarrow> Inr ALIASES
      | JStr s \<Rightarrow>
          if s = [] then Inr ALIASES
          else Inr (AList.update cmd (map strip (split_comma s)) ALIASES))"
| "aliases_step ALIASES r = Inl ValueError"

fun aliases_loop :: "row list \<Rightarrow> aliases \<Rightarrow> error + aliases" where
  "aliases_loop [] ALIASES = Inr ALIASES"
| "aliases_loop (r # rest) ALIASES =
     (case aliases_step ALIASES r of
        Inl e \<Rightarrow> Inl e
      | Inr ALIASES' \<Rightarrow> aliases_loop rest ALIASES')"

subsection \<open>The loop over the permission records (lines 17 to 27)\<close>

text \<open>
  A record whose \<open>cmd\<close> or \<open>node\<close> is \<open>None\<close> or empty is skipped. Otherwise the two
  \<open>if\<close> statements run one after the other, the second on the dictionary the first left.
\<close>

fun commands_step :: "aliases \<Rightarrow> nodes \<Rightarrow> row \<Rightarrow> error + nodes" where
  "commands_step ALIASES commands [pl, JStr cmd, JStr node, desc] =
     (if cmd = [] \<or> node = [] then Inr commands
      else
        let commands1 =
              (if map_of commands cmd = None \<and> map_of ALIASES (JStr cmd) \<noteq> None
               then AList.update cmd node commands else commands)
        in (case map_of commands1 cmd of
              None \<Rightarrow> Inr commands1
            | Some old \<Rightarrow>
                if length old > length node
                then Inr (AList.update cmd node commands1) else Inr commands1))"
| "commands_step ALIASES commands [pl, cmd, node, desc] = Inr commands"
| "commands_step ALIASES commands r = Inl ValueError"

fun commands_loop :: "aliases \<Rightarrow> row list \<Rightarrow> nodes \<Rightarrow> error + nodes" where
  "commands_loop ALIASES [] commands = Inr commands"
| "commands_loop ALIASES (r # rest) commands =
     (case commands_step ALIASES commands r of
        Inl e \<Rightarrow> Inl e
      | Inr commands' \<Rightarrow> commands_loop ALIASES rest commands')"

subsection \<open>The output loop (lines 29 to 33)\<close>

text \<open>
  \<open>sorted(set(xs))\<close>: a set holds each element once and is iterated in an order that
  depends on the hashes of its elements, which Python randomises per process for strings.
  The parameter \<open>it\<close> gives that iteration order; \<open>sorted\<close> sorts it ascending.
\<close>

definition sorted_set :: "(pystr list \<Rightarrow> pystr list) \<Rightarrow> pystr list \<Rightarrow> pystr list" where
  "sorted_set it xs = sort (it xs)"

definition set_order :: "(pystr list \<Rightarrow> pystr list) \<Rightarrow> bool" where
  "set_order it \<longleftrightarrow> (\<forall>xs. distinct (it xs) \<and> set (it xs) = set xs)"

definition line :: "pystr \<Rightarrow> pystr \<Rightarrow> pystr" where
  \<open>line c node = c @ str '' = "'' @ node @ str ''"''\<close>

text \<open>
  Standard output is a UTF-8 text stream with strict error handling. It encodes every code
  point but the surrogates U+D800 to U+DFFF, which \<open>json.load\<close> accepts in a string (as a
  lone escape). On a line with a surrogate \<open>print\<close> raises \<open>UnicodeEncodeError\<close> and
  writes nothing of that line; the lines printed before it stay.
\<close>

definition encodable :: "nat \<Rightarrow> bool" where
  "encodable c \<longleftrightarrow> c < 55296 \<or> 57343 < c"

text \<open>The inner loop (lines 32 and 33): one \<open>print\<close> for each name of the sorted set.\<close>

fun print_loop :: "pystr \<Rightarrow> pystr list \<Rightarrow> pystr list \<Rightarrow> pystr list \<times> error option" where
  "print_loop node [] out = (out, None)"
| "print_loop node (c # rest) out =
     (if list_all encodable (line c node)
      then print_loop node rest (out @ [line c node])
      else (out, Some UnicodeEncodeError))"

text \<open>
  The result is what was printed, line by line, and the exception that ended the run,
  if any. \<open>ALIASES[cmd]\<close> is evaluated before the first line of its group is printed.
\<close>

fun output_loop ::
  "(pystr list \<Rightarrow> pystr list) \<Rightarrow> aliases \<Rightarrow> nodes \<Rightarrow> pystr list \<Rightarrow> pystr list \<Rightarrow>
   pystr list \<times> error option" where
  "output_loop it ALIASES commands [] out = (out, None)"
| "output_loop it ALIASES commands (cmd # rest) out =
     (case map_of commands cmd of
        None \<Rightarrow> (out, Some KeyError)
      | Some node \<Rightarrow>
          (case map_of ALIASES (JStr cmd) of
             None \<Rightarrow> (out, Some KeyError)
           | Some als \<Rightarrow>
               (case print_loop node (sorted_set it (cmd # als)) out of
                  (out', None) \<Rightarrow> output_loop it ALIASES commands rest out'
                | (out', Some e) \<Rightarrow> (out', Some e))))"

subsection \<open>The script\<close>

definition run ::
  "(pystr list \<Rightarrow> pystr list) \<Rightarrow> row list \<Rightarrow> row list \<Rightarrow> pystr list \<times> error option" where
  "run it commands_json permissions_json =
     (case aliases_loop commands_json [] of
        Inl e \<Rightarrow> ([], Some e)
      | Inr ALIASES \<Rightarrow>
          (case commands_loop ALIASES permissions_json [] of
             Inl e \<Rightarrow> ([], Some e)
           | Inr commands \<Rightarrow>
               output_loop it ALIASES commands (sorted_set it (map fst commands)) []))"

text \<open>The run in which every set is iterated in the order its elements were given.\<close>

definition main :: "row list \<Rightarrow> row list \<Rightarrow> pystr list \<times> error option" where
  "main commands_json permissions_json = run remdups commands_json permissions_json"

section \<open>Notions used in the statements\<close>

text \<open>
  The nodes offered to a command name \<open>c\<close>: the \<open>node\<close> fields, in order, of the
  permission records whose \<open>cmd\<close> is \<open>c\<close> and whose \<open>node\<close> is non-empty.
\<close>

fun node_of :: "pystr \<Rightarrow> row \<Rightarrow> pystr option" where
  "node_of c [pl, JStr cmd, JStr node, desc] = (if cmd = c \<and> node \<noteq> [] then Some node else None)"
| "node_of c r = None"

definition nodes_for :: "pystr \<Rightarrow> row list \<Rightarrow> pystr list" where
  "nodes_for c permissions = List.map_filter (node_of c) permissions"

text \<open>
  What the two \<open>if\<close> statements keep of a sequence of offered nodes, starting from the
  stored node \<open>cur\<close> (\<open>None\<close> when the command is not stored yet).
\<close>

fun keep_shorter :: "pystr option \<Rightarrow> pystr list \<Rightarrow> pystr option" where
  "keep_shorter cur [] = cur"
| "keep_shorter None (n # ns) = keep_shorter (Some n) ns"
| "keep_shorter (Some old) (n # ns) = keep_shorter (Some (if length old > length n then n else old)) ns"

text \<open>
  A command record assigns \<open>ALIASES[k]\<close> when its name is \<open>k\<close> and its alias field is a
  non-empty string.
\<close>

fun has_aliases :: "json \<Rightarrow> row \<Rightarrow> bool" where
  "has_aliases k [pl, cmd, JStr s, desc, helpText] = (cmd = k \<and> s \<noteq> [])"
| "has_aliases k r = False"

text \<open>
  \<open>",".join(pieces)\<close>, the inverse of splitting, and the alias fields of which some
  comma-separated piece is empty or all whitespace.
\<close>

fun join_comma :: "pystr list \<Rightarrow> pystr" where
  "join_comma [] = []"
| "join_comma [p] = p"
| "join_comma (p # q # ps) = p @ comma # join_comma (q # ps)"

definition blank_piece :: "pystr \<Rightarrow> bool" where
  "blank_piece raw \<longleftrightarrow> list_ex (list_all isspace) (split_comma raw)"

text \<open>
  Printing a sequence of lines one after the other: the lines before the first one that
  cannot be encoded are printed, and the run ends normally when there is none.
\<close>

definition emit :: "pystr list \<Rightarrow> pystr list \<times> error option" where
  "emit ls =
     (takeWhile (list_all encodable) ls,
      if list_all (list_all encodable) ls then None else Some UnicodeEncodeError)"

text \<open>A field without surrogates: \<open>null\<close>, or a string of code points that can be encoded.\<close>

definition field_encodable :: "json \<Rightarrow> bool" where
  "field_encodable v = (case v of JNull \<Rightarrow> True | JStr s \<Rightarrow> list_all encodable s)"

text \<open>
  A group of the output: a command of the dictionary \<open>commands\<close>, its node, and the names
  printed for it; \<open>print_group\<close> gives the lines of a group.
\<close>

definition node_at :: "nodes \<Rightarrow> pystr \<Rightarrow> pystr" where
  "node_at commands cmd = (case map_of commands cmd of None \<Rightarrow> [] | Some node \<Rightarrow> node)"

definition aliases_at :: "aliases \<Rightarrow> pystr \<Rightarrow> pystr list" where
  "aliases_at ALIASES cmd = (case map_of ALIASES (JStr cmd) of None \<Rightarrow> [] | Some als \<Rightarrow> als)"

definition group_of :: "aliases \<Rightarrow> nodes \<Rightarrow> pystr \<Rightarrow> pystr \<times> pystr \<times> pystr list" where
  "group_of ALIASES commands cmd =
     (cmd, node_at commands cmd, sort (remdups (cmd # aliases_at ALIASES cmd)))"

definition print_group :: "pystr \<times> pystr \<times> pystr list \<Rightarrow> pystr list" where
  "print_group g = (case g of (cmd, node, names) \<Rightarrow> map (\<lambda>c. line c node) names)"

section \<open>Example inputs\<close>

text \<open>The example of the specification, and the dictionary \<open>ALIASES\<close> built from it.\<close>

definition ex_commands :: "row list" where
  "ex_commands =
     [[JStr (str ''any''), JStr (str ''ban''), JStr (str ''b, banish''),
       JStr (str ''desc''), JStr (str ''help'')]]"

definition ex_permissions :: "row list" where
  "ex_permissions =
     [[JStr (str ''any''), JStr (str ''ban''), JStr (str ''group.mod.ban''), JStr (str ''desc'')],
      [JStr (str ''any''), JStr (str ''ban''), JStr (str ''mod.ban''), JStr (str ''desc'')]]"

definition ex_ALIASES :: aliases where
  "ex_ALIASES = [(JStr (str ''ban''), [str ''b'', str ''banish''])]"

text \<open>
  A larger input: an alias list with duplicates and the command's own name (\<open>warn\<close>),
  a command with two nodes (\<open>ban\<close>), a command with an empty alias field (\<open>kick\<close>), an
  alias field ending in a comma (\<open>mute\<close>), and \<open>null\<close> in fields the script does not read.
\<close>

definition ex2_commands :: "row list" where
  "ex2_commands =
     [[JStr (str ''any''), JStr (str ''warn''), JStr (str ''w, warn ,w''), JStr (str ''d''), JStr (str ''h'')],
      [JStr (str ''any''), JStr (str ''ban''), JStr (str ''b, banish''), JStr (str ''d''), JStr (str ''h'')],
      [JStr (str ''any''), JStr (str ''kick''), JStr (str ''''), JStr (str ''d''), JStr (str ''h'')],
      [JStr (str ''any''), JStr (str ''mute''), JStr (str ''m,''), JStr (str ''d''), JNull]]"

definition ex2_permissions :: "row list" where
  "ex2_permissions =
     [[JStr (str ''any''), JStr (str ''warn''), JStr (str ''staff.warn''), JStr (str ''d'')],
      [JStr (str ''any''), JStr (str ''kick''), JStr (str ''staff.kick''), JStr (str ''d'')],
      [JStr (str ''any''), JStr (str ''ban''), JStr (str ''group.mod.ban''), JStr (str ''d'')],
      [JStr (str ''any''), JStr (str ''ban''), JStr (str ''mod.ban''), JNull],
      [JStr (str ''any''), JStr (str ''mute''), JStr (str ''staff.mute''), JStr (str ''d'')]]"

definition ex2_ALIASES :: aliases where
  "ex2_ALIASES =
     [(JStr (str ''warn''), [str ''w'', str ''warn'', str ''w'']),
      (JStr (str ''ban''), [str ''b'', str ''banish'']),
      (JStr (str ''mute''), [str ''m'', str ''''])]"

definition ex2_nodes :: nodes where
  "ex2_nodes =
     [(str ''warn'', str ''staff.warn''), (str ''ban'', str ''mod.ban''),
      (str ''mute'', str ''staff.mute'')]"

text \<open>
  Three records for one command name: the second is the last with a non-empty alias field.
\<close>

definition ex3_commands :: "row list" where
  "ex3_commands =
     [[JStr (str ''any''), JStr (str ''ban''), JStr (str ''x''), JStr (str ''d''), JStr (str ''h'')],
      [JStr (str ''any''), JStr (str ''ban''), JStr (str ''b, banish , b''), JStr (str ''d''), JStr (str ''h'')],
      [JStr (str ''any''), JStr (str ''ban''), JNull, JStr (str ''d''), JStr (str ''h'')]]"

text \<open>A command with the empty name, and a permission record for it.\<close>

definition ex_empty_name_commands :: "row list" where
  "ex_empty_name_commands =
     [[JStr (str ''any''), JStr (str ''''), JStr (str ''x''), JStr (str ''d''), JStr (str ''h'')]]"

definition ex_empty_name_permissions :: "row list" where
  "ex_empty_name_permissions =
     [[JStr (str ''any''), JStr (str ''''), JStr (str ''n''), JStr (str ''d'')]]"

text \<open>
  A command whose alias field is one space, and whose node is the lone surrogate U+D800
  (a JSON escape in the file).
\<close>

definition ex_surrogate_commands :: "row list" where
  "ex_surrogate_commands =
     [[JStr (str ''any''), JStr (str ''mute''), JStr (str '' ''), JStr (str ''d''), JStr (str ''h'')]]"

definition ex_surrogate_permissions :: "row list" where
  "ex_surrogate_permissions =
     [[JStr (str ''any''), JStr (str ''mute''), JStr [55296], JStr (str ''d'')]]"

text \<open>
  The command \<open>kick\<close> has an empty alias field and a permission record; the command
  \<open>boot\<close> lists \<open>kick\<close> as its alias.
\<close>

definition ex_boot_commands :: "row list" where
  "ex_boot_commands =
     [[JStr (str ''any''), JStr (str ''kick''), JStr (str ''''), JStr (str ''d''), JStr (str ''h'')],
      [JStr (str ''any''), JStr (str ''boot''), JStr (str ''kick''), JStr (str ''d''), JStr (str ''h'')]]"

definition ex_boot_permissions :: "row list" where
  "ex_boot_permissions =
     [[JStr (str ''any''), JStr (str ''kick''), JStr (str ''staff.kick''), JStr (str ''d'')],
      [JStr (str ''any''), JStr (str ''boot''), JStr (str ''staff.boot''), JStr (str ''d'')]]"

section \<open>Properties\<close>

lemmas eval_defs =
  main_def run_def str_def comma_def isspace_def strip_def sorted_set_def line_def encodable_def

lemma ex2_aliases_loop: "aliases_loop ex2_commands [] = Inr ex2_ALIASES"
  by (simp add: ex2_commands_def ex2_ALIASES_def str_def comma_def isspace_def strip_def)

lemma ex2_commands_loop: "commands_loop ex2_ALIASES ex2_permissions [] = Inr ex2_nodes"
  by (simp add: ex2_permissions_def ex2_ALIASES_def ex2_nodes_def str_def)

subsection \<open>Sorting a set does not depend on its iteration order\<close>

lemma sorted_set_canonical:
  assumes "set_order it"
  shows "sorted_set it xs = sort (remdups xs)"
proof -
  have d: "distinct (it xs)" and s: "set (it xs) = set xs"
    using assms by (simp_all add: set_order_def)
  show ?thesis
    unfolding sorted_set_def
  proof (rule sorted_distinct_set_unique)
    show "sorted (sort (it xs))" by simp
    show "distinct (sort (it xs))" using d by simp
    show "sorted (sort (remdups xs))" by simp
    show "distinct (sort (remdups xs))" by simp
    show "set (sort (it xs)) = set (sort (remdups xs))" using s by simp
  qed
qed

lemma output_loop_order:
  assumes "set_order it1" "set_order it2"
  shows "output_loop it1 A Cm ks out = output_loop it2 A Cm ks out"
  by (induction ks arbitrary: out)
     (simp_all add: sorted_set_canonical [OF assms(1)] sorted_set_canonical [OF assms(2)]
        split: option.splits prod.splits)

text \<open>Every run is the run \<open>main\<close>, whatever the iteration order of its sets.\<close>

lemma run_eq_main:
  assumes "set_order it"
  shows "run it commands_json permissions_json = main commands_json permissions_json"
proof -
  have r: "set_order remdups" by (simp add: set_order_def)
  show ?thesis
    unfolding main_def run_def
    by (simp add: sorted_set_canonical [OF assms] sorted_set_canonical [OF r]
          output_loop_order [OF assms r] split: sum.splits)
qed

text \<open>
  Claim C8. The output is determined by the contents of the two files: whatever order the
  sets are iterated in (the one thing that varies between two runs of the interpreter),
  the printed lines and the exit status are the same.
\<close>

theorem run_deterministic:
  assumes "set_order it1" "set_order it2"
  shows "run it1 commands_json permissions_json = run it2 commands_json permissions_json"
  unfolding run_def
  by (simp add: sorted_set_canonical [OF assms(1)] sorted_set_canonical [OF assms(2)]
        output_loop_order [OF assms] split: sum.splits)

theorem run_deterministic_witness:
  "set_order remdups \<and> set_order (\<lambda>xs. rev (remdups xs)) \<and>
   run remdups ex_commands ex_permissions =
   run (\<lambda>xs. rev (remdups xs)) ex_commands ex_permissions"
proof -
  have a: "set_order remdups" by (simp add: set_order_def)
  have b: "set_order (\<lambda>xs. rev (remdups xs))" by (simp add: set_order_def)
  show ?thesis using a b run_deterministic [OF a b] by simp
qed

subsection \<open>The example\<close>

text \<open>
  Claim C2, as the specification has it: on the example the three lines carry the node
  \<open>group.mod.ban\<close>. The script prints other lines.
\<close>

theorem example_longer_node_counterexample:
  \<open>main ex_commands ex_permissions \<noteq>
     (map str [''b = "group.mod.ban"'', ''ban = "group.mod.ban"'',
               ''banish = "group.mod.ban"''], None)\<close>
  by (simp add: eval_defs ex_commands_def ex_permissions_def)

text \<open>
  Claim C2, amended: on the example the script prints exactly three lines, for \<open>b\<close>,
  \<open>ban\<close> and \<open>banish\<close> in that order, each with the node \<open>mod.ban\<close>, and ends normally.
\<close>

theorem example_prints_shorter_node:
  \<open>main ex_commands ex_permissions =
     (map str [''b = "mod.ban"'', ''ban = "mod.ban"'', ''banish = "mod.ban"''], None)\<close>
  by (simp add: eval_defs ex_commands_def ex_permissions_def)

text \<open>The larger input, run as a test of the model.\<close>

lemma ex2_output:
  \<open>main ex2_commands ex2_permissions =
     (map str [''b = "mod.ban"'', ''ban = "mod.ban"'', ''banish = "mod.ban"'',
               '' = "staff.mute"'', ''m = "staff.mute"'', ''mute = "staff.mute"'',
               ''w = "staff.warn"'', ''warn = "staff.warn"''], None)\<close>
  by (simp add: eval_defs ex2_commands_def ex2_permissions_def)

subsection \<open>Records and their lengths\<close>

lemma aliases_step_length: "length r \<noteq> 5 \<Longrightarrow> aliases_step A r = Inl ValueError"
  by (cases "(A, r)" rule: aliases_step.cases) simp_all

lemma aliases_step_error: "aliases_step A r = Inl e \<Longrightarrow> e = ValueError"
  by (cases "(A, r)" rule: aliases_step.cases) (auto split: json.splits if_splits)

lemma aliases_loop_error: "aliases_loop cs A = Inl e \<Longrightarrow> e = ValueError"
  by (induction cs arbitrary: A) (auto split: sum.splits dest: aliases_step_error)

lemma aliases_loop_length:
  "r \<in> set cs \<Longrightarrow> length r \<noteq> 5 \<Longrightarrow> aliases_loop cs A = Inl ValueError"
proof (induction cs arbitrary: A)
  case Nil
  then show ?case by simp
next
  case (Cons a cs)
  show ?case
  proof (cases "aliases_step A a")
    case (Inl e)
    then show ?thesis using aliases_step_error [OF Inl] by simp
  next
    case (Inr A')
    then have "a \<noteq> r" using Cons.prems(2) aliases_step_length by fastforce
    then show ?thesis using Cons Inr by simp
  qed
qed

lemma commands_step_length: "length r \<noteq> 4 \<Longrightarrow> commands_step A Cm r = Inl ValueError"
  by (cases "(A, Cm, r)" rule: commands_step.cases) simp_all

lemma commands_step_error: "commands_step A Cm r = Inl e \<Longrightarrow> e = ValueError"
  by (cases "(A, Cm, r)" rule: commands_step.cases)
     (auto simp: Let_def split: option.splits if_splits)

lemma commands_loop_error: "commands_loop A ps Cm = Inl e \<Longrightarrow> e = ValueError"
  by (induction ps arbitrary: Cm) (auto split: sum.splits dest: commands_step_error)

lemma commands_loop_length:
  "r \<in> set ps \<Longrightarrow> length r \<noteq> 4 \<Longrightarrow> commands_loop A ps Cm = Inl ValueError"
proof (induction ps arbitrary: Cm)
  case Nil
  then show ?case by simp
next
  case (Cons a ps)
  show ?case
  proof (cases "commands_step A Cm a")
    case (Inl e)
    then show ?thesis using commands_step_error [OF Inl] by simp
  next
    case (Inr Cm')
    then have "a \<noteq> r" using Cons.prems(2) commands_step_length by fastforce
    then show ?thesis using Cons Inr by simp
  qed
qed

lemma aliases_step_ok: "length r = 5 \<Longrightarrow> \<exists>A'. aliases_step A r = Inr A'"
  by (cases "(A, r)" rule: aliases_step.cases) (auto split: json.splits)

lemma aliases_loop_ok: "\<forall>r \<in> set cs. length r = 5 \<Longrightarrow> \<exists>A'. aliases_loop cs A = Inr A'"
proof (induction cs arbitrary: A)
  case Nil
  then show ?case by simp
next
  case (Cons r cs)
  then obtain A1 where "aliases_step A r = Inr A1" using aliases_step_ok [of r A] by auto
  then show ?case using Cons by simp
qed

lemma commands_step_ok: "length r = 4 \<Longrightarrow> \<exists>Cm'. commands_step A Cm r = Inr Cm'"
  by (cases "(A, Cm, r)" rule: commands_step.cases) (auto simp: Let_def split: option.splits)

lemma commands_loop_ok: "\<forall>r \<in> set ps. length r = 4 \<Longrightarrow> \<exists>Cm'. commands_loop A ps Cm = Inr Cm'"
proof (induction ps arbitrary: Cm)
  case Nil
  then show ?case by simp
next
  case (Cons r ps)
  then obtain Cm1 where "commands_step A Cm r = Inr Cm1" using commands_step_ok [of r A Cm] by auto
  then show ?case using Cons by simp
qed

text \<open>
  Claim C9. When some command record has fewer than five elements, or some permission
  record fewer than four, the run ends with the \<open>ValueError\<close> of tuple unpacking. Both
  loops over the records end before the first \<open>print\<close>, so nothing has been printed.
\<close>

theorem short_record_aborts:
  assumes "(\<exists>r \<in> set commands_json. length r < 5) \<or>
           (\<exists>r \<in> set permissions_json. length r < 4)"
  shows "main commands_json permissions_json = ([], Some ValueError)"
proof (cases "aliases_loop commands_json []")
  case (Inl e)
  then show ?thesis using aliases_loop_error [OF Inl] by (simp add: main_def run_def)
next
  case (Inr A)
  have "\<not> (\<exists>r \<in> set commands_json. length r < 5)"
  proof
    assume "\<exists>r \<in> set commands_json. length r < 5"
    then obtain r where "r \<in> set commands_json" "length r \<noteq> 5" by auto
    then show False using aliases_loop_length Inr by fastforce
  qed
  then obtain r where "r \<in> set permissions_json" "length r \<noteq> 4" using assms by auto
  then have "commands_loop A permissions_json [] = Inl ValueError"
    by (rule commands_loop_length)
  then show ?thesis using Inr by (simp add: main_def run_def)
qed

theorem short_record_aborts_witness:
  "((\<exists>r \<in> set ex_commands. length r < 5) \<or>
    (\<exists>r \<in> set (ex_permissions @ [[JStr (str ''any''), JStr (str ''kick''), JStr (str ''mod.kick'')]]).
       length r < 4)) \<and>
   main ex_commands (ex_permissions @ [[JStr (str ''any''), JStr (str ''kick''), JStr (str ''mod.kick'')]])
     = ([], Some ValueError)"
proof -
  have h: "(\<exists>r \<in> set ex_commands. length r < 5) \<or>
    (\<exists>r \<in> set (ex_permissions @ [[JStr (str ''any''), JStr (str ''kick''), JStr (str ''mod.kick'')]]).
       length r < 4)"
    by simp
  show ?thesis using h short_record_aborts [OF h] by simp
qed

subsection \<open>The dictionary \<open>commands\<close>\<close>

lemma commands_step_lookup:
  assumes "commands_step A Cm r = Inr Cm'" "c \<noteq> []" "map_of A (JStr c) \<noteq> None"
  shows "map_of Cm' c = (case node_of c r of None \<Rightarrow> map_of Cm c | Some n \<Rightarrow> keep_shorter (map_of Cm c) [n])"
  using assms
  by (cases "(A, Cm, r)" rule: commands_step.cases)
     (auto simp: Let_def update_conv' split: option.splits if_splits)

lemma commands_step_keys:
  assumes "commands_step A Cm r = Inr Cm'" "map_of Cm' c \<noteq> None"
  shows "map_of Cm c \<noteq> None \<or> map_of A (JStr c) \<noteq> None"
  using assms
  by (cases "(A, Cm, r)" rule: commands_step.cases)
     (auto simp: Let_def update_conv' split: option.splits if_splits)

lemma keep_shorter_append: "keep_shorter cur (xs @ ys) = keep_shorter (keep_shorter cur xs) ys"
  by (induction cur xs rule: keep_shorter.induct) auto

lemma commands_loop_lookup:
  assumes "commands_loop A ps Cm = Inr Cm'" "c \<noteq> []" "map_of A (JStr c) \<noteq> None"
  shows "map_of Cm' c = keep_shorter (map_of Cm c) (nodes_for c ps)"
  using assms
proof (induction ps arbitrary: Cm)
  case Nil
  then show ?case by (simp add: nodes_for_def map_filter_simps)
next
  case (Cons r ps)
  from Cons.prems(1) obtain Cm1 where s: "commands_step A Cm r = Inr Cm1"
    and l: "commands_loop A ps Cm1 = Inr Cm'"
    by (auto split: sum.splits)
  have "map_of Cm' c = keep_shorter (map_of Cm1 c) (nodes_for c ps)"
    using Cons.IH [OF l Cons.prems(2,3)] .
  then show ?case
    using commands_step_lookup [OF s Cons.prems(2,3)]
    by (cases "node_of c r"; cases "map_of Cm c") (simp_all add: nodes_for_def map_filter_simps)
qed

lemma keep_shorter_Some:
  "\<exists>pre m post. n # ns = pre @ m # post \<and> keep_shorter (Some n) ns = Some m \<and>
      (\<forall>x \<in> set pre. length m < length x) \<and> (\<forall>x \<in> set post. length m \<le> length x)"
proof (induction ns arbitrary: n)
  case Nil
  show ?case by (rule exI [of _ "[]"]) simp
next
  case (Cons x ns)
  show ?case
  proof (cases "length n > length x")
    case True
    from Cons.IH [of x] obtain pre m post where
      d: "x # ns = pre @ m # post" and k: "keep_shorter (Some x) ns = Some m"
      and p: "\<forall>y \<in> set pre. length m < length y" and q: "\<forall>y \<in> set post. length m \<le> length y"
      by blast
    have "m \<in> set (x # ns)" using d by simp
    have "length m \<le> length x"
    proof (cases pre)
      case Nil
      then show ?thesis using d by simp
    next
      case (Cons a list)
      then show ?thesis using d p by auto
    qed
    then have "\<forall>y \<in> set (n # pre). length m < length y" using p True by auto
    moreover have "n # x # ns = (n # pre) @ m # post" using d by simp
    moreover have "keep_shorter (Some n) (x # ns) = Some m" using k True by simp
    ultimately show ?thesis using q by blast
  next
    case False
    from Cons.IH [of n] obtain pre m post where
      d: "n # ns = pre @ m # post" and k: "keep_shorter (Some n) ns = Some m"
      and p: "\<forall>y \<in> set pre. length m < length y" and q: "\<forall>y \<in> set post. length m \<le> length y"
      by blast
    have k': "keep_shorter (Some n) (x # ns) = Some m" using k False by simp
    show ?thesis
    proof (cases pre)
      case Nil
      then have "n # x # ns = [] @ m # x # post" "\<forall>y \<in> set (x # post). length m \<le> length y"
        using d q False by auto
      then show ?thesis using k' by (metis empty_iff empty_set)
    next
      case (Cons a pre')
      then have "n # x # ns = (n # x # pre') @ m # post" using d by simp
      moreover have "\<forall>y \<in> set (n # x # pre'). length m < length y"
        using p Cons d False by auto
      ultimately show ?thesis using k' q by blast
    qed
  qed
qed

lemma keep_shorter_None:
  assumes "ns \<noteq> []"
  shows "\<exists>pre m post. ns = pre @ m # post \<and> keep_shorter None ns = Some m \<and>
      (\<forall>x \<in> set pre. length m < length x) \<and> (\<forall>x \<in> set post. length m \<le> length x)"
proof -
  obtain n ns' where "ns = n # ns'" using assms by (cases ns) auto
  then show ?thesis using keep_shorter_Some [of n ns'] by simp
qed

lemma commands_loop_append:
  "commands_loop A (xs @ ys) Cm =
     (case commands_loop A xs Cm of Inl e \<Rightarrow> Inl e | Inr Cm' \<Rightarrow> commands_loop A ys Cm')"
  by (induction xs arbitrary: Cm) (simp_all split: sum.splits)

lemma commands_loop_keys:
  assumes "commands_loop A ps Cm = Inr Cm'" "map_of Cm' c \<noteq> None"
  shows "map_of Cm c \<noteq> None \<or> map_of A (JStr c) \<noteq> None"
  using assms
proof (induction ps arbitrary: Cm)
  case Nil
  then show ?case by simp
next
  case (Cons r ps)
  from Cons.prems(1) obtain Cm1 where s: "commands_step A Cm r = Inr Cm1"
    and l: "commands_loop A ps Cm1 = Inr Cm'"
    by (auto split: sum.splits)
  from Cons.IH [OF l Cons.prems(2)] show ?case using commands_step_keys [OF s] by blast
qed

lemma commands_loop_keys_ALIASES:
  assumes "commands_loop A ps [] = Inr Cm" "c \<in> fst ` set Cm"
  shows "JStr c \<in> fst ` set A"
proof -
  have "map_of Cm c \<noteq> None" using assms(2) by (simp add: map_of_eq_None_iff)
  then have "map_of A (JStr c) \<noteq> None" using commands_loop_keys [OF assms(1)] by fastforce
  then show ?thesis by (simp add: map_of_eq_None_iff)
qed

text \<open>
  Claim C1, as the specification has it: of two nodes offered to a command the longer one is
  stored. On the example the nodes \<open>group.mod.ban\<close> and \<open>mod.ban\<close> are offered to
  \<open>ban\<close>, in that order, and the dictionary ends with the shorter one.
\<close>

theorem longest_node_counterexample:
  "aliases_loop ex_commands [] = Inr ex_ALIASES \<and>
   commands_loop ex_ALIASES ex_permissions [] = Inr [(str ''ban'', str ''mod.ban'')] \<and>
   nodes_for (str ''ban'') ex_permissions = [str ''group.mod.ban'', str ''mod.ban''] \<and>
   length (str ''mod.ban'') < length (str ''group.mod.ban'')"
  by (simp add: eval_defs ex_commands_def ex_permissions_def ex_ALIASES_def nodes_for_def map_filter_simps)

text \<open>
  Claim C1, amended: for a non-empty command name \<open>c\<close> that is a key of \<open>ALIASES\<close>, to
  which the permission records offer at least one node, the dictionary \<open>commands\<close> ends
  with the shortest node offered. Of several shortest nodes it is the first: every node
  offered before it is strictly longer, every node offered after it at least as long. The
  length of the stored node is the minimum of the lengths, whatever the order of the records.
\<close>

theorem shortest_node_kept:
  assumes "commands_loop ALIASES permissions [] = Inr commands"
    and "c \<noteq> []" and "map_of ALIASES (JStr c) \<noteq> None"
    and "nodes_for c permissions \<noteq> []"
  shows "\<exists>pre m post. nodes_for c permissions = pre @ m # post \<and> map_of commands c = Some m \<and>
           (\<forall>x \<in> set pre. length m < length x) \<and> (\<forall>x \<in> set post. length m \<le> length x) \<and>
           length m = Min (length ` set (nodes_for c permissions))"
proof -
  have "map_of commands c = keep_shorter None (nodes_for c permissions)"
    using commands_loop_lookup [OF assms(1,2,3)] by simp
  with keep_shorter_None [OF assms(4)] obtain pre m post where
    d: "nodes_for c permissions = pre @ m # post" and k: "map_of commands c = Some m"
    and p: "\<forall>x \<in> set pre. length m < length x" and q: "\<forall>x \<in> set post. length m \<le> length x"
    by auto
  have "Min (length ` set (nodes_for c permissions)) = length m"
  proof (rule Min_eqI)
    show "finite (length ` set (nodes_for c permissions))" by simp
    show "length m \<in> length ` set (nodes_for c permissions)" using d by simp
    fix y assume "y \<in> length ` set (nodes_for c permissions)"
    then show "length m \<le> y" using d p q by (auto simp: less_imp_le)
  qed
  then show ?thesis using d k p q by auto
qed

theorem shortest_node_kept_witness:
  "commands_loop ex_ALIASES ex_permissions [] = Inr [(str ''ban'', str ''mod.ban'')] \<and>
   str ''ban'' \<noteq> [] \<and> map_of ex_ALIASES (JStr (str ''ban'')) \<noteq> None \<and>
   nodes_for (str ''ban'') ex_permissions \<noteq> [] \<and>
   (\<exists>pre m post. nodes_for (str ''ban'') ex_permissions = pre @ m # post \<and>
      map_of [(str ''ban'', str ''mod.ban'')] (str ''ban'') = Some m \<and>
      (\<forall>x \<in> set pre. length m < length x) \<and> (\<forall>x \<in> set post. length m \<le> length x) \<and>
      length m = Min (length ` set (nodes_for (str ''ban'') ex_permissions)))"
proof -
  have h1: "commands_loop ex_ALIASES ex_permissions [] = Inr [(str ''ban'', str ''mod.ban'')]"
    by (simp add: eval_defs ex_permissions_def ex_ALIASES_def)
  have h2: "str ''ban'' \<noteq> []" by (simp add: str_def)
  have h3: "map_of ex_ALIASES (JStr (str ''ban'')) \<noteq> None" by (simp add: ex_ALIASES_def)
  have h4: "nodes_for (str ''ban'') ex_permissions \<noteq> []"
    by (simp add: ex_permissions_def nodes_for_def map_filter_simps str_def)
  show ?thesis using h1 h2 h3 h4 shortest_node_kept [OF h1 h2 h3 h4] by blast
qed

text \<open>
  Claim C4. After every record of the permissions loop, each key of the dictionary
  \<open>commands\<close> is a key of \<open>ALIASES\<close>; in particular at the end of the loop
  (\<open>k = length permissions\<close>).
\<close>

theorem commands_keys_in_ALIASES:
  assumes "commands_loop ALIASES permissions [] = Inr commands"
  shows "\<forall>k \<le> length permissions. \<exists>commands_k.
           commands_loop ALIASES (take k permissions) [] = Inr commands_k \<and>
           (\<forall>c \<in> fst ` set commands_k. JStr c \<in> fst ` set ALIASES)"
proof (intro allI impI)
  fix k assume "k \<le> length permissions"
  have "commands_loop ALIASES (take k permissions @ drop k permissions) [] = Inr commands"
    using assms by simp
  then obtain commands_k where
    ck: "commands_loop ALIASES (take k permissions) [] = Inr commands_k"
    unfolding commands_loop_append by (auto split: sum.splits)
  then show "\<exists>commands_k.
           commands_loop ALIASES (take k permissions) [] = Inr commands_k \<and>
           (\<forall>c \<in> fst ` set commands_k. JStr c \<in> fst ` set ALIASES)"
    using commands_loop_keys_ALIASES [OF ck] by blast
qed

theorem commands_keys_in_ALIASES_witness:
  "commands_loop ex2_ALIASES ex2_permissions [] = Inr ex2_nodes \<and>
   (\<exists>commands_k.
      commands_loop ex2_ALIASES (take 3 ex2_permissions) [] = Inr commands_k \<and>
      commands_k = [(str ''warn'', str ''staff.warn''), (str ''ban'', str ''group.mod.ban'')] \<and>
      (\<forall>c \<in> fst ` set commands_k. JStr c \<in> fst ` set ex2_ALIASES))"
proof -
  have k: "commands_loop ex2_ALIASES (take 3 ex2_permissions) [] =
             Inr [(str ''warn'', str ''staff.warn''), (str ''ban'', str ''group.mod.ban'')]"
    by (simp add: ex2_permissions_def ex2_ALIASES_def str_def)
  have "3 \<le> length ex2_permissions" by (simp add: ex2_permissions_def)
  then show ?thesis
    using ex2_commands_loop k commands_keys_in_ALIASES [OF ex2_commands_loop] by auto
qed

subsection \<open>The dictionary \<open>ALIASES\<close>\<close>

lemma aliases_step_miss:
  "aliases_step A r = Inr A' \<Longrightarrow> \<not> has_aliases k r \<Longrightarrow> map_of A' k = map_of A k"
  by (cases "(A, r)" rule: aliases_step.cases)
     (auto simp: update_conv' split: json.splits if_splits)

lemma aliases_step_dom:
  "aliases_step A r = Inr A' \<Longrightarrow>
     map_of A' k \<noteq> None \<longleftrightarrow> map_of A k \<noteq> None \<or> has_aliases k r"
  by (cases "(A, r)" rule: aliases_step.cases)
     (auto simp: update_conv' split: json.splits if_splits)

lemma aliases_loop_dom:
  "aliases_loop cs A = Inr A' \<Longrightarrow>
     map_of A' k \<noteq> None \<longleftrightarrow> map_of A k \<noteq> None \<or> (\<exists>r \<in> set cs. has_aliases k r)"
proof (induction cs arbitrary: A)
  case Nil
  then show ?case by simp
next
  case (Cons r cs)
  from Cons.prems obtain A1 where s: "aliases_step A r = Inr A1"
    and l: "aliases_loop cs A1 = Inr A'"
    by (auto split: sum.splits)
  show ?case using Cons.IH [OF l] aliases_step_dom [OF s, of k] by auto
qed

lemma aliases_loop_miss:
  "aliases_loop cs A = Inr A' \<Longrightarrow> \<forall>r \<in> set cs. \<not> has_aliases k r \<Longrightarrow> map_of A' k = map_of A k"
proof (induction cs arbitrary: A)
  case Nil
  then show ?case by simp
next
  case (Cons r cs)
  from Cons.prems(1) obtain A1 where s: "aliases_step A r = Inr A1"
    and l: "aliases_loop cs A1 = Inr A'"
    by (auto split: sum.splits)
  show ?case using Cons.IH [OF l] aliases_step_miss [OF s, of k] Cons.prems(2) by simp
qed

lemma aliases_loop_append:
  "aliases_loop (xs @ ys) A =
     (case aliases_loop xs A of Inl e \<Rightarrow> Inl e | Inr A' \<Rightarrow> aliases_loop ys A')"
  by (induction xs arbitrary: A) (simp_all split: sum.splits)

lemma aliases_loop_last:
  assumes "aliases_loop (before @ [pl, cmd, JStr raw, desc, helpText] # after) [] = Inr ALIASES"
    and "raw \<noteq> []" and "\<forall>r \<in> set after. \<not> has_aliases cmd r"
  shows "map_of ALIASES cmd = Some (map strip (split_comma raw))"
proof -
  from assms(1) obtain A1 where b: "aliases_loop before [] = Inr A1"
    and r: "aliases_loop ([pl, cmd, JStr raw, desc, helpText] # after) A1 = Inr ALIASES"
    unfolding aliases_loop_append by (auto split: sum.splits)
  let ?A2 = "AList.update cmd (map strip (split_comma raw)) A1"
  have "aliases_loop after ?A2 = Inr ALIASES" using r assms(2) by simp
  then have "map_of ALIASES cmd = map_of ?A2 cmd" using assms(3) by (rule aliases_loop_miss)
  then show ?thesis by (simp add: update_conv')
qed

lemma split_comma_nonempty: "split_comma s \<noteq> []"
  by (induction s) (auto split: list.splits)

lemma join_split_comma: "join_comma (split_comma s) = s"
proof (induction s)
  case Nil
  then show ?case by simp
next
  case (Cons c s)
  obtain p ps where sp: "split_comma s = p # ps"
    using split_comma_nonempty [of s] by (cases "split_comma s") auto
  show ?case using Cons sp by (cases ps) auto
qed

lemma split_comma_no_comma: "p \<in> set (split_comma s) \<Longrightarrow> comma \<notin> set p"
  by (induction s arbitrary: p) (auto split: if_splits list.splits)

lemma strip_blank: "list_all isspace p \<Longrightarrow> strip p = []"
proof -
  assume "list_all isspace p"
  then have "dropWhile isspace p = []" by (simp add: list_all_iff)
  then show ?thesis unfolding strip_def by (simp only: rev.simps dropWhile.simps)
qed

lemma strip_decomposition:
  "\<exists>l r. p = l @ strip p @ r \<and> list_all isspace l \<and> list_all isspace r \<and>
         (strip p \<noteq> [] \<longrightarrow> \<not> isspace (hd (strip p)) \<and> \<not> isspace (last (strip p)))"
proof -
  let ?s1 = "dropWhile isspace p"
  let ?l = "takeWhile isspace p"
  let ?r = "rev (takeWhile isspace (rev ?s1))"
  have p: "p = ?l @ ?s1" by simp
  have "rev (takeWhile isspace (rev ?s1) @ dropWhile isspace (rev ?s1)) = rev (rev ?s1)"
    by (simp only: takeWhile_dropWhile_id)
  then have s1: "?s1 = strip p @ ?r" by (simp only: strip_def rev_append rev_rev_ident)
  have l: "list_all isspace ?l" by (simp add: list_all_iff) (meson set_takeWhileD)
  have r: "list_all isspace ?r" by (simp add: list_all_iff) (meson set_takeWhileD)
  have e: "\<not> isspace (hd (strip p)) \<and> \<not> isspace (last (strip p))" if ne: "strip p \<noteq> []"
  proof -
    have "hd (strip p) = hd ?s1" using s1 ne by (metis hd_append2)
    moreover have "?s1 \<noteq> []" using s1 ne by (metis Nil_is_append_conv)
    ultimately have a: "\<not> isspace (hd (strip p))" using hd_dropWhile by metis
    have d: "dropWhile isspace (rev ?s1) \<noteq> []" using ne by (simp add: strip_def)
    have "last (strip p) = hd (dropWhile isspace (rev ?s1))"
      using d by (simp add: strip_def last_rev)
    then have "\<not> isspace (last (strip p))" using hd_dropWhile [OF d] by simp
    then show ?thesis using a by simp
  qed
  have "p = ?l @ strip p @ ?r" using p s1 by metis
  then show ?thesis using l r e by blast
qed

lemma only_spaces_and_commas:
  "list_all (\<lambda>ch. isspace ch \<or> ch = comma) raw \<Longrightarrow> list_all (list_all isspace) (split_comma raw)"
  by (induction raw) (auto split: list.splits)

text \<open>
  Claim C7. Take a command record with a non-empty alias field \<open>raw\<close> after which no
  record assigns the same name again (so it is the last one for its name). Then
  \<open>ALIASES\<close> maps the name to the pieces of \<open>raw\<close> between its commas, each stripped, in
  order and with duplicates. The pieces are what splitting means: joined with commas they
  give \<open>raw\<close> back and none contains a comma. Stripping a piece removes a run of whitespace
  at each end and leaves a string that neither starts nor ends with whitespace.
\<close>

theorem alias_index_entry:
  assumes "commands_json = before @ [pl, cmd, JStr raw, desc, helpText] # after"
    and "aliases_loop commands_json [] = Inr ALIASES"
    and "raw \<noteq> []" and "\<forall>r \<in> set after. \<not> has_aliases cmd r"
  shows "map_of ALIASES cmd = Some (map strip (split_comma raw)) \<and>
         join_comma (split_comma raw) = raw \<and>
         (\<forall>p \<in> set (split_comma raw). comma \<notin> set p \<and>
            (\<exists>l r. p = l @ strip p @ r \<and> list_all isspace l \<and> list_all isspace r \<and>
               (strip p \<noteq> [] \<longrightarrow> \<not> isspace (hd (strip p)) \<and> \<not> isspace (last (strip p)))))"
  using aliases_loop_last [OF assms(2) [unfolded assms(1)] assms(3,4)]
    join_split_comma split_comma_no_comma strip_decomposition
  by blast

theorem alias_index_entry_witness:
  "ex3_commands =
     [[JStr (str ''any''), JStr (str ''ban''), JStr (str ''x''), JStr (str ''d''), JStr (str ''h'')]] @
     [JStr (str ''any''), JStr (str ''ban''), JStr (str ''b, banish , b''), JStr (str ''d''), JStr (str ''h'')] #
     [[JStr (str ''any''), JStr (str ''ban''), JNull, JStr (str ''d''), JStr (str ''h'')]] \<and>
   aliases_loop ex3_commands [] = Inr [(JStr (str ''ban''), [str ''b'', str ''banish'', str ''b''])] \<and>
   str ''b, banish , b'' \<noteq> [] \<and>
   \<not> (\<exists>r \<in> set [[JStr (str ''any''), JStr (str ''ban''), JNull, JStr (str ''d''), JStr (str ''h'')]].
        has_aliases (JStr (str ''ban'')) r) \<and>
   map_of [(JStr (str ''ban''), [str ''b'', str ''banish'', str ''b''])] (JStr (str ''ban'')) =
     Some (map strip (split_comma (str ''b, banish , b''))) \<and>
   map strip (split_comma (str ''b, banish , b'')) = [str ''b'', str ''banish'', str ''b'']"
proof -
  have h1: "ex3_commands =
     [[JStr (str ''any''), JStr (str ''ban''), JStr (str ''x''), JStr (str ''d''), JStr (str ''h'')]] @
     [JStr (str ''any''), JStr (str ''ban''), JStr (str ''b, banish , b''), JStr (str ''d''), JStr (str ''h'')] #
     [[JStr (str ''any''), JStr (str ''ban''), JNull, JStr (str ''d''), JStr (str ''h'')]]"
    by (simp add: ex3_commands_def)
  have h2: "aliases_loop ex3_commands [] = Inr [(JStr (str ''ban''), [str ''b'', str ''banish'', str ''b''])]"
    by (simp add: ex3_commands_def str_def comma_def isspace_def strip_def)
  have h3: "str ''b, banish , b'' \<noteq> []" by (simp add: str_def)
  have h4: "\<forall>r \<in> set [[JStr (str ''any''), JStr (str ''ban''), JNull, JStr (str ''d''), JStr (str ''h'')]].
        \<not> has_aliases (JStr (str ''ban'')) r" by simp
  have e: "map strip (split_comma (str ''b, banish , b'')) = [str ''b'', str ''banish'', str ''b'']"
    by (simp add: str_def comma_def isspace_def strip_def)
  show ?thesis
    using h1 h2 h3 h4 e alias_index_entry [OF h1 h2 h3 h4] by blast
qed

subsection \<open>The printed lines\<close>

lemma line_code_points: "line c node = c @ [32, 61, 32, 34] @ node @ [34]"
  by (simp add: line_def str_def)

lemma print_group_code_points:
  "print_group = (\<lambda>(cmd, node, names). map (\<lambda>c. c @ [32, 61, 32, 34] @ node @ [34]) names)"
  by (simp add: fun_eq_iff print_group_def line_code_points)

lemma emit_append:
  "emit (xs @ ys) =
     (if list_all (list_all encodable) xs then (xs @ fst (emit ys), snd (emit ys)) else emit xs)"
proof (cases "list_all (list_all encodable) xs")
  case True
  then have "takeWhile (list_all encodable) (xs @ ys) = xs @ takeWhile (list_all encodable) ys"
    by (simp add: list_all_iff takeWhile_append2)
  then show ?thesis using True by (simp add: emit_def)
next
  case False
  then obtain x where "x \<in> set xs" "\<not> list_all encodable x" by (auto simp: list_all_iff)
  then have "takeWhile (list_all encodable) (xs @ ys) = takeWhile (list_all encodable) xs"
    by (rule takeWhile_append1)
  then show ?thesis using False by (simp add: emit_def)
qed

lemma emit_all: "list_all (list_all encodable) ls \<Longrightarrow> emit ls = (ls, None)"
  by (simp add: emit_def list_all_iff)

lemma emit_None: "snd (emit ls) = None \<Longrightarrow> emit ls = (ls, None)"
  by (cases "list_all (list_all encodable) ls") (simp_all add: emit_all, simp add: emit_def)

lemma print_loop_emit:
  "print_loop node names out =
     (out @ fst (emit (map (\<lambda>c. line c node) names)), snd (emit (map (\<lambda>c. line c node) names)))"
proof (induction names arbitrary: out)
  case Nil
  then show ?case by (simp add: emit_def)
next
  case (Cons c names)
  show ?case
  proof (cases "list_all encodable (line c node)")
    case True
    have "emit (map (\<lambda>c. line c node) (c # names)) =
            ([line c node] @ fst (emit (map (\<lambda>c. line c node) names)),
             snd (emit (map (\<lambda>c. line c node) names)))"
      using emit_append [of "[line c node]" "map (\<lambda>c. line c node) names"] True by simp
    then show ?thesis using True Cons [of "out @ [line c node]"] by simp
  next
    case False
    then show ?thesis by (simp add: emit_def)
  qed
qed

lemma output_loop_groups:
  assumes "\<forall>cmd \<in> set ks. map_of Cm cmd \<noteq> None \<and> map_of A (JStr cmd) \<noteq> None"
  shows "output_loop remdups A Cm ks out =
           (out @ fst (emit (concat (map (\<lambda>cmd. print_group (group_of A Cm cmd)) ks))),
            snd (emit (concat (map (\<lambda>cmd. print_group (group_of A Cm cmd)) ks))))"
  using assms
proof (induction ks arbitrary: out)
  case Nil
  then show ?case by (simp add: emit_def)
next
  case (Cons cmd ks)
  then obtain node als where n: "map_of Cm cmd = Some node" and a: "map_of A (JStr cmd) = Some als"
    by auto
  let ?g = "print_group (group_of A Cm cmd)"
  let ?rest = "concat (map (\<lambda>cmd. print_group (group_of A Cm cmd)) ks)"
  have g: "?g = map (\<lambda>c. line c node) (sorted_set remdups (cmd # als))"
    using n a by (simp add: print_group_def group_of_def node_at_def aliases_at_def sorted_set_def)
  have p: "print_loop node (sorted_set remdups (cmd # als)) out = (out @ fst (emit ?g), snd (emit ?g))"
    unfolding g by (rule print_loop_emit)
  have ih: "output_loop remdups A Cm ks out' = (out' @ fst (emit ?rest), snd (emit ?rest))" for out'
    using Cons by simp
  show ?case
  proof (cases "list_all (list_all encodable) ?g")
    case True
    then have "emit ?g = (?g, None)" by (rule emit_all)
    then have "output_loop remdups A Cm (cmd # ks) out = output_loop remdups A Cm ks (out @ ?g)"
      using n a p by simp
    then show ?thesis using True ih [of "out @ ?g"] emit_append [of ?g ?rest] by simp
  next
    case False
    then have e: "snd (emit ?g) = Some UnicodeEncodeError" by (simp add: emit_def)
    then have "output_loop remdups A Cm (cmd # ks) out = (out @ fst (emit ?g), snd (emit ?g))"
      using n a p by simp
    then show ?thesis using False emit_append [of ?g ?rest] by simp
  qed
qed

lemma main_groups:
  assumes "aliases_loop cs [] = Inr A" "commands_loop A ps [] = Inr Cm"
  shows "main cs ps =
     emit (concat (map (\<lambda>cmd. print_group (group_of A Cm cmd)) (sort (remdups (map fst Cm)))))"
proof -
  have "\<forall>cmd \<in> set (sort (remdups (map fst Cm))).
          map_of Cm cmd \<noteq> None \<and> map_of A (JStr cmd) \<noteq> None"
    using commands_loop_keys_ALIASES [OF assms(2)] by (auto simp: map_of_eq_None_iff)
  from output_loop_groups [OF this, of "[]"] show ?thesis
    using assms by (simp add: main_def run_def sorted_set_def)
qed

lemma main_no_KeyError: "snd (main cs ps) \<noteq> Some KeyError"
proof (cases "aliases_loop cs []")
  case (Inl e)
  then show ?thesis using aliases_loop_error [OF Inl] by (simp add: main_def run_def)
next
  case (Inr A)
  show ?thesis
  proof (cases "commands_loop A ps []")
    case (Inl e)
    then show ?thesis using Inr commands_loop_error [OF Inl] by (simp add: main_def run_def)
  next
    case Inr2: (Inr Cm)
    show ?thesis using main_groups [OF Inr Inr2] by (simp add: emit_def)
  qed
qed

text \<open>
  When the records have the right lengths and no string of the two files has a surrogate,
  both loops succeed, every line can be encoded and the run ends normally.
\<close>

lemma set_strip: "set (strip p) \<subseteq> set p"
proof -
  have "set (strip p) \<subseteq> set (rev (dropWhile isspace p))"
    unfolding strip_def by (auto dest: set_dropWhileD)
  then show ?thesis by (auto dest: set_dropWhileD)
qed

lemma set_split_comma: "p \<in> set (split_comma s) \<Longrightarrow> set p \<subseteq> set s"
proof (induction s arbitrary: p)
  case Nil
  then show ?case by simp
next
  case (Cons a s)
  obtain q qs where sp: "split_comma s = q # qs"
    using split_comma_nonempty [of s] by (cases "split_comma s") auto
  have q: "set q \<subseteq> set s" and qs: "\<forall>r \<in> set qs. set r \<subseteq> set s"
    using Cons.IH sp by simp_all
  show ?case
  proof (cases "a = comma")
    case True
    then have "p = [] \<or> p \<in> set (split_comma s)" using Cons.prems by simp
    then show ?thesis using Cons.IH by auto
  next
    case False
    then have "p = a # q \<or> p \<in> set qs" using Cons.prems sp by simp
    then show ?thesis using q qs by auto
  qed
qed

lemma aliases_step_encodable:
  assumes "aliases_step A r = Inr A'" "list_all field_encodable r"
    and "\<forall>k als. map_of A k = Some als \<longrightarrow> list_all (list_all encodable) als"
  shows "\<forall>k als. map_of A' k = Some als \<longrightarrow> list_all (list_all encodable) als"
proof (cases "(A, r)" rule: aliases_step.cases)
  case (1 ALIASES pl cmd rawAliases desc helpText)
  show ?thesis
  proof (cases rawAliases)
    case JNull
    then show ?thesis using 1 assms by simp
  next
    case (JStr s)
    have s: "list_all encodable s" using assms(2) 1 JStr by (simp add: field_encodable_def)
    have "list_all (list_all encodable) (map strip (split_comma s))"
      using s set_strip set_split_comma by (fastforce simp: list_all_iff)
    then show ?thesis using 1 JStr assms(1,3) by (auto simp: update_conv' split: if_splits)
  qed
qed (use assms in simp_all)

lemma aliases_loop_encodable:
  assumes "aliases_loop cs A = Inr A'" "list_all (list_all field_encodable) cs"
    and "\<forall>k als. map_of A k = Some als \<longrightarrow> list_all (list_all encodable) als"
  shows "\<forall>k als. map_of A' k = Some als \<longrightarrow> list_all (list_all encodable) als"
  using assms
proof (induction cs arbitrary: A)
  case Nil
  then show ?case by simp
next
  case (Cons r cs)
  from Cons.prems(1) obtain A1 where s: "aliases_step A r = Inr A1"
    and l: "aliases_loop cs A1 = Inr A'"
    by (auto split: sum.splits)
  have r: "list_all field_encodable r" and cs: "list_all (list_all field_encodable) cs"
    using Cons.prems(2) by simp_all
  show ?case using Cons.IH [OF l cs aliases_step_encodable [OF s r Cons.prems(3)]] .
qed

lemma commands_step_encodable:
  assumes "commands_step A Cm r = Inr Cm'" "list_all field_encodable r"
    and "\<forall>c n. map_of Cm c = Some n \<longrightarrow> list_all encodable c \<and> list_all encodable n"
  shows "\<forall>c n. map_of Cm' c = Some n \<longrightarrow> list_all encodable c \<and> list_all encodable n"
  using assms
  by (cases "(A, Cm, r)" rule: commands_step.cases)
     (auto simp: Let_def update_conv' field_encodable_def split: option.splits if_splits)

lemma commands_loop_encodable:
  assumes "commands_loop A ps Cm = Inr Cm'" "list_all (list_all field_encodable) ps"
    and "\<forall>c n. map_of Cm c = Some n \<longrightarrow> list_all encodable c \<and> list_all encodable n"
  shows "\<forall>c n. map_of Cm' c = Some n \<longrightarrow> list_all encodable c \<and> list_all encodable n"
  using assms
proof (induction ps arbitrary: Cm)
  case Nil
  then show ?case by simp
next
  case (Cons r ps)
  from Cons.prems(1) obtain Cm1 where s: "commands_step A Cm r = Inr Cm1"
    and l: "commands_loop A ps Cm1 = Inr Cm'"
    by (auto split: sum.splits)
  have r: "list_all field_encodable r" and ps: "list_all (list_all field_encodable) ps"
    using Cons.prems(2) by simp_all
  show ?case using Cons.IH [OF l ps commands_step_encodable [OF s r Cons.prems(3)]] .
qed

lemma well_formed_run:
  assumes "\<forall>r \<in> set cs. length r = 5" "\<forall>r \<in> set ps. length r = 4"
    and "list_all (list_all field_encodable) cs" "list_all (list_all field_encodable) ps"
  shows "\<exists>A Cm. aliases_loop cs [] = Inr A \<and> commands_loop A ps [] = Inr Cm \<and>
           snd (main cs ps) = None"
proof -
  obtain A where a: "aliases_loop cs [] = Inr A" using aliases_loop_ok [OF assms(1)] by blast
  obtain Cm where c: "commands_loop A ps [] = Inr Cm" using commands_loop_ok [OF assms(2)] by blast
  have ea: "\<forall>k als. map_of A k = Some als \<longrightarrow> list_all (list_all encodable) als"
    using aliases_loop_encodable [OF a assms(3)] by simp
  have ec: "\<forall>c n. map_of Cm c = Some n \<longrightarrow> list_all encodable c \<and> list_all encodable n"
    using commands_loop_encodable [OF c assms(4)] by simp
  have "list_all (list_all encodable) (print_group (group_of A Cm cmd))"
    if "cmd \<in> fst ` set Cm" for cmd
  proof -
    have "map_of Cm cmd \<noteq> None" using that by (simp add: map_of_eq_None_iff)
    then obtain node where n: "map_of Cm cmd = Some node" by blast
    have "JStr cmd \<in> fst ` set A" using commands_loop_keys_ALIASES [OF c that] .
    then have "map_of A (JStr cmd) \<noteq> None" by (simp add: map_of_eq_None_iff)
    then obtain als where al: "map_of A (JStr cmd) = Some als" by blast
    have "list_all encodable cmd" "list_all encodable node" using ec n by blast+
    moreover have "list_all (list_all encodable) als" using ea al by blast
    ultimately show ?thesis
      using n al
      by (auto simp: print_group_def group_of_def node_at_def aliases_at_def line_code_points
            list_all_iff encodable_def)
  qed
  then have "list_all (list_all encodable)
      (concat (map (\<lambda>cmd. print_group (group_of A Cm cmd)) (sort (remdups (map fst Cm)))))"
    by (auto simp: list_all_iff)
  then have "snd (main cs ps) = None" using main_groups [OF a c] by (simp add: emit_all)
  then show ?thesis using a c by blast
qed

text \<open>
  Claim C5. When both record loops succeed, the lines to print are the concatenation of
  groups, one for each key of \<open>commands\<close>, in strictly ascending order of the keys. The
  lines of a group are \<open>name = "node"\<close> (the code points 32, 61, 32, 34 are a space, an equals
  sign, a space and a double quote) for the names of the group in strictly ascending order
  (so no name twice), and the names are the command itself and its aliases. The emitted
  lines are these lines up to the first that cannot be encoded: all of them when the run
  ends normally.
\<close>

theorem output_grouped_sorted:
  assumes "aliases_loop commands_json [] = Inr ALIASES"
    and "commands_loop ALIASES permissions_json [] = Inr commands"
  shows "\<exists>gs full.
           full = concat (map (\<lambda>(cmd, node, names).
                    map (\<lambda>c. c @ [32, 61, 32, 34] @ node @ [34]) names) gs) \<and>
           main commands_json permissions_json =
             (takeWhile (list_all encodable) full,
              if list_all (list_all encodable) full then None else Some UnicodeEncodeError) \<and>
           sorted_wrt (<) (map fst gs) \<and> set (map fst gs) = fst ` set commands \<and>
           (\<forall>(cmd, node, names) \<in> set gs.
              map_of commands cmd = Some node \<and> sorted_wrt (<) names \<and>
              (\<exists>als. map_of ALIASES (JStr cmd) = Some als \<and> set names = insert cmd (set als)))"
proof -
  let ?ks = "sort (remdups (map fst commands))"
  let ?gs = "map (group_of ALIASES commands) ?ks"
  let ?full = "concat (map (\<lambda>(cmd, node, names).
                    map (\<lambda>c. c @ [32, 61, 32, 34] @ node @ [34]) names) ?gs)"
  have "main commands_json permissions_json = emit (concat (map print_group ?gs))"
    using main_groups [OF assms] by (simp add: comp_def)
  then have m: "main commands_json permissions_json =
             (takeWhile (list_all encodable) ?full,
              if list_all (list_all encodable) ?full then None else Some UnicodeEncodeError)"
    unfolding print_group_code_points emit_def .
  have f: "map fst ?gs = ?ks" by (simp add: comp_def group_of_def)
  have s: "sorted_wrt (<) (map fst ?gs)" unfolding f by (simp add: strict_sorted_iff)
  have k: "set (map fst ?gs) = fst ` set commands" unfolding f by simp
  have q: "map_of commands cmd = Some (node_at commands cmd) \<and>
          sorted_wrt (<) (sort (remdups (cmd # aliases_at ALIASES cmd))) \<and>
          (\<exists>als. map_of ALIASES (JStr cmd) = Some als \<and>
             set (sort (remdups (cmd # aliases_at ALIASES cmd))) = insert cmd (set als))"
    if "cmd \<in> fst ` set commands" for cmd
  proof -
    have "map_of commands cmd \<noteq> None" using that by (simp add: map_of_eq_None_iff)
    then obtain node where n: "map_of commands cmd = Some node" by blast
    have "JStr cmd \<in> fst ` set ALIASES" using commands_loop_keys_ALIASES [OF assms(2) that] .
    then have "map_of ALIASES (JStr cmd) \<noteq> None" by (simp add: map_of_eq_None_iff)
    then obtain als where a: "map_of ALIASES (JStr cmd) = Some als" by blast
    show ?thesis using n a by (auto simp: node_at_def aliases_at_def strict_sorted_iff)
  qed
  have g: "\<forall>(cmd, node, names) \<in> set ?gs.
              map_of commands cmd = Some node \<and> sorted_wrt (<) names \<and>
              (\<exists>als. map_of ALIASES (JStr cmd) = Some als \<and> set names = insert cmd (set als))"
    using q by (simp add: group_of_def)
  show ?thesis
  proof (intro exI conjI)
    show "?full = ?full" by (rule refl)
    show "main commands_json permissions_json =
             (takeWhile (list_all encodable) ?full,
              if list_all (list_all encodable) ?full then None else Some UnicodeEncodeError)"
      by (rule m)
    show "sorted_wrt (<) (map fst ?gs)" by (rule s)
    show "set (map fst ?gs) = fst ` set commands" by (rule k)
    show "\<forall>(cmd, node, names) \<in> set ?gs.
              map_of commands cmd = Some node \<and> sorted_wrt (<) names \<and>
              (\<exists>als. map_of ALIASES (JStr cmd) = Some als \<and> set names = insert cmd (set als))"
      by (rule g)
  qed
qed

theorem output_grouped_sorted_witness:
  "aliases_loop ex2_commands [] = Inr ex2_ALIASES \<and>
   commands_loop ex2_ALIASES ex2_permissions [] = Inr ex2_nodes \<and>
   (\<exists>gs full.
      full = concat (map (\<lambda>(cmd, node, names).
               map (\<lambda>c. c @ [32, 61, 32, 34] @ node @ [34]) names) gs) \<and>
      main ex2_commands ex2_permissions =
        (takeWhile (list_all encodable) full,
         if list_all (list_all encodable) full then None else Some UnicodeEncodeError) \<and>
      sorted_wrt (<) (map fst gs) \<and> set (map fst gs) = fst ` set ex2_nodes \<and>
      (\<forall>(cmd, node, names) \<in> set gs.
         map_of ex2_nodes cmd = Some node \<and> sorted_wrt (<) names \<and>
         (\<exists>als. map_of ex2_ALIASES (JStr cmd) = Some als \<and> set names = insert cmd (set als))))"
  using ex2_aliases_loop ex2_commands_loop
    output_grouped_sorted [OF ex2_aliases_loop ex2_commands_loop]
  by blast

text \<open>
  Claim C3, as the specification has it: a command whose record has a non-empty alias field
  and for which a permission record with a non-empty node exists gets a line for itself
  and for each alias. Two inputs where it gets none: the command with the empty name, whose
  permission record line 20 skips, and the command whose node has a surrogate, where the
  first \<open>print\<close> raises.
\<close>

theorem command_and_aliases_printed_counterexample:
  "list_ex (has_aliases (JStr (str ''''))) ex_empty_name_commands \<and>
   nodes_for (str '''') ex_empty_name_permissions = [str ''n''] \<and>
   main ex_empty_name_commands ex_empty_name_permissions = ([], None) \<and>
   list_ex (has_aliases (JStr (str ''mute''))) ex_surrogate_commands \<and>
   nodes_for (str ''mute'') ex_surrogate_permissions = [[55296]] \<and>
   main ex_surrogate_commands ex_surrogate_permissions = ([], Some UnicodeEncodeError)"
  by (simp add: eval_defs ex_empty_name_commands_def ex_empty_name_permissions_def
        ex_surrogate_commands_def ex_surrogate_permissions_def nodes_for_def map_filter_simps)

text \<open>
  Claim C3, amended. Let a command record name \<open>c\<close>, a non-empty name, with a non-empty
  alias field, let the permission records offer \<open>c\<close> at least one node, and let the run
  end normally. Then \<open>c\<close> has an alias list and a node, and the output contains a block
  of lines \<open>name = "node"\<close>, one for each name among \<open>c\<close> and its aliases, all with that
  node.
\<close>

theorem command_and_aliases_printed:
  assumes "aliases_loop commands_json [] = Inr ALIASES"
    and "commands_loop ALIASES permissions_json [] = Inr commands"
    and "[pl, JStr c, JStr raw, desc, helpText] \<in> set commands_json" and "raw \<noteq> []"
    and "c \<noteq> []" and "nodes_for c permissions_json \<noteq> []"
    and "snd (main commands_json permissions_json) = None"
  shows "\<exists>als node before names after.
           map_of ALIASES (JStr c) = Some als \<and> map_of commands c = Some node \<and>
           fst (main commands_json permissions_json) =
             before @ map (\<lambda>n. n @ [32, 61, 32, 34] @ node @ [34]) names @ after \<and>
           distinct names \<and> set names = insert c (set als)"
proof -
  have "has_aliases (JStr c) [pl, JStr c, JStr raw, desc, helpText]" using assms(4) by simp
  then have "map_of ALIASES (JStr c) \<noteq> None"
    using aliases_loop_dom [OF assms(1), of "JStr c"] assms(3) by blast
  then obtain als where a: "map_of ALIASES (JStr c) = Some als" by blast
  have "map_of commands c = keep_shorter None (nodes_for c permissions_json)"
    using commands_loop_lookup [OF assms(2,5)] a by simp
  then obtain node where n: "map_of commands c = Some node"
    using keep_shorter_None [OF assms(6)] by auto
  let ?ks = "sort (remdups (map fst commands))"
  let ?f = "\<lambda>cmd. print_group (group_of ALIASES commands cmd)"
  let ?names = "sort (remdups (c # als))"
  have "map_of commands c \<noteq> None" using n by simp
  then have "c \<in> fst ` set commands" by (simp add: map_of_eq_None_iff)
  then have "c \<in> set ?ks" by simp
  then obtain ks1 ks2 where ks: "?ks = ks1 @ c # ks2" by (meson split_list)
  have fc: "?f c = map (\<lambda>n. n @ [32, 61, 32, 34] @ node @ [34]) ?names"
    using a n by (simp add: print_group_def group_of_def node_at_def aliases_at_def line_code_points)
  have "main commands_json permissions_json = (concat (map ?f ?ks), None)"
    using main_groups [OF assms(1,2)] assms(7) emit_None by simp
  then have "fst (main commands_json permissions_json) =
          concat (map ?f ks1) @ map (\<lambda>n. n @ [32, 61, 32, 34] @ node @ [34]) ?names @
          concat (map ?f ks2)"
    unfolding ks using fc by simp
  moreover have "distinct ?names" by simp
  moreover have "set ?names = insert c (set als)" by auto
  ultimately show ?thesis using a n by blast
qed

theorem command_and_aliases_printed_witness:
  "aliases_loop ex2_commands [] = Inr ex2_ALIASES \<and>
   commands_loop ex2_ALIASES ex2_permissions [] = Inr ex2_nodes \<and>
   [JStr (str ''any''), JStr (str ''ban''), JStr (str ''b, banish''), JStr (str ''d''), JStr (str ''h'')]
     \<in> set ex2_commands \<and>
   str ''b, banish'' \<noteq> [] \<and> str ''ban'' \<noteq> [] \<and> nodes_for (str ''ban'') ex2_permissions \<noteq> [] \<and>
   snd (main ex2_commands ex2_permissions) = None \<and>
   (\<exists>als node before names after.
      map_of ex2_ALIASES (JStr (str ''ban'')) = Some als \<and> map_of ex2_nodes (str ''ban'') = Some node \<and>
      fst (main ex2_commands ex2_permissions) =
        before @ map (\<lambda>n. n @ [32, 61, 32, 34] @ node @ [34]) names @ after \<and>
      distinct names \<and> set names = insert (str ''ban'') (set als))"
proof -
  have h3: "[JStr (str ''any''), JStr (str ''ban''), JStr (str ''b, banish''), JStr (str ''d''), JStr (str ''h'')]
     \<in> set ex2_commands" by (simp add: ex2_commands_def)
  have h4: "str ''b, banish'' \<noteq> []" by (simp add: str_def)
  have h5: "str ''ban'' \<noteq> []" by (simp add: str_def)
  have h6: "nodes_for (str ''ban'') ex2_permissions \<noteq> []"
    by (simp add: ex2_permissions_def nodes_for_def map_filter_simps str_def)
  have h7: "snd (main ex2_commands ex2_permissions) = None" by (simp add: ex2_output)
  show ?thesis
    using ex2_aliases_loop ex2_commands_loop h3 h4 h5 h6 h7
      command_and_aliases_printed [OF ex2_aliases_loop ex2_commands_loop h3 h4 h5 h6 h7]
    by blast
qed

text \<open>
  Claim C6, as the specification has it: no line is emitted for a command with an empty
  alias field, nor for any name belonging to it. Here \<open>kick\<close> has an empty alias field and
  a permission record, \<open>boot\<close> lists \<open>kick\<close> as an alias, and a line for the name
  \<open>kick\<close> is printed, with the node of \<open>boot\<close>.
\<close>

theorem no_alias_field_counterexample:
  \<open>\<not> list_ex (has_aliases (JStr (str ''kick''))) ex_boot_commands \<and>
   nodes_for (str ''kick'') ex_boot_permissions = [str ''staff.kick''] \<and>
   main ex_boot_commands ex_boot_permissions =
     (map str [''boot = "staff.boot"'', ''kick = "staff.boot"''], None)\<close>
  by (simp add: eval_defs ex_boot_commands_def ex_boot_permissions_def nodes_for_def
        map_filter_simps)

text \<open>
  Claim C6, amended. When no command record gives the name \<open>c\<close> a non-empty alias field,
  \<open>c\<close> is a key neither of \<open>ALIASES\<close> nor of \<open>commands\<close>, whatever the permission
  records say, and no group of lines is emitted for \<open>c\<close>: the emitted lines are lines
  \<open>name = "node"\<close> of the groups of other commands, with the nodes of those commands. A
  line with the name \<open>c\<close> is emitted only when \<open>c\<close> is listed as an alias of another
  command: when \<open>c\<close> is in no alias list, no group has the name \<open>c\<close>.
\<close>

theorem no_alias_field_no_group:
  assumes "aliases_loop commands_json [] = Inr ALIASES"
    and "commands_loop ALIASES permissions_json [] = Inr commands"
    and "\<forall>r \<in> set commands_json. \<not> has_aliases (JStr c) r"
  shows "map_of ALIASES (JStr c) = None \<and> map_of commands c = None \<and>
         (\<exists>gs. fst (main commands_json permissions_json) =
              takeWhile (list_all encodable)
                (concat (map (\<lambda>(cmd, node, names).
                   map (\<lambda>n. n @ [32, 61, 32, 34] @ node @ [34]) names) gs)) \<and>
            (\<forall>(cmd, node, names) \<in> set gs.
               cmd \<noteq> c \<and> map_of commands cmd = Some node \<and>
               (\<exists>als. map_of ALIASES (JStr cmd) = Some als \<and> set names = insert cmd (set als))) \<and>
            ((\<forall>(k, als) \<in> set ALIASES. c \<notin> set als) \<longrightarrow>
             (\<forall>(cmd, node, names) \<in> set gs. c \<notin> set names)))"
proof -
  have a: "map_of ALIASES (JStr c) = None"
    using aliases_loop_miss [OF assms(1,3)] by simp
  have n: "map_of commands c = None"
    using commands_loop_keys [OF assms(2), of c] a by fastforce
  let ?ks = "sort (remdups (map fst commands))"
  let ?gs = "map (group_of ALIASES commands) ?ks"
  let ?full = "concat (map (\<lambda>(cmd, node, names).
                   map (\<lambda>n. n @ [32, 61, 32, 34] @ node @ [34]) names) ?gs)"
  have "main commands_json permissions_json = emit (concat (map print_group ?gs))"
    using main_groups [OF assms(1,2)] by (simp add: comp_def)
  then have "main commands_json permissions_json =
             (takeWhile (list_all encodable) ?full,
              if list_all (list_all encodable) ?full then None else Some UnicodeEncodeError)"
    unfolding print_group_code_points emit_def .
  then have m: "fst (main commands_json permissions_json) = takeWhile (list_all encodable) ?full"
    by simp
  have q: "cmd \<noteq> c \<and> map_of commands cmd = Some (node_at commands cmd) \<and>
          (\<exists>als. map_of ALIASES (JStr cmd) = Some als \<and>
             set (sort (remdups (cmd # aliases_at ALIASES cmd))) = insert cmd (set als))"
    if "cmd \<in> fst ` set commands" for cmd
  proof -
    have "map_of commands cmd \<noteq> None" using that by (simp add: map_of_eq_None_iff)
    then obtain node where n': "map_of commands cmd = Some node" by blast
    have "JStr cmd \<in> fst ` set ALIASES" using commands_loop_keys_ALIASES [OF assms(2) that] .
    then have "map_of ALIASES (JStr cmd) \<noteq> None" by (simp add: map_of_eq_None_iff)
    then obtain als where a': "map_of ALIASES (JStr cmd) = Some als" by blast
    show ?thesis using n n' a' by (auto simp: node_at_def aliases_at_def)
  qed
  have g: "\<forall>(cmd, node, names) \<in> set ?gs.
               cmd \<noteq> c \<and> map_of commands cmd = Some node \<and>
               (\<exists>als. map_of ALIASES (JStr cmd) = Some als \<and> set names = insert cmd (set als))"
    using q by (simp add: group_of_def)
  have l: "\<forall>(cmd, node, names) \<in> set ?gs. c \<notin> set names"
    if "\<forall>(k, als) \<in> set ALIASES. c \<notin> set als"
  proof -
    have "c \<notin> set names" if "(cmd, node, names) \<in> set ?gs" for cmd node names
    proof -
      from g that obtain als where "cmd \<noteq> c" "map_of ALIASES (JStr cmd) = Some als"
        "set names = insert cmd (set als)" by blast
      moreover from this have "(JStr cmd, als) \<in> set ALIASES" by (simp add: map_of_SomeD)
      ultimately show ?thesis using \<open>\<forall>(k, als) \<in> set ALIASES. c \<notin> set als\<close> by auto
    qed
    then show ?thesis by blast
  qed
  show ?thesis
  proof (intro conjI exI impI)
    show "map_of ALIASES (JStr c) = None" by (rule a)
    show "map_of commands c = None" by (rule n)
    show "fst (main commands_json permissions_json) = takeWhile (list_all encodable) ?full"
      by (rule m)
    show "\<forall>(cmd, node, names) \<in> set ?gs.
               cmd \<noteq> c \<and> map_of commands cmd = Some node \<and>
               (\<exists>als. map_of ALIASES (JStr cmd) = Some als \<and> set names = insert cmd (set als))"
      by (rule g)
    show "\<forall>(cmd, node, names) \<in> set ?gs. c \<notin> set names"
      if "\<forall>(k, als) \<in> set ALIASES. c \<notin> set als" using l [OF that] .
  qed
qed

theorem no_alias_field_no_group_witness:
  "aliases_loop ex2_commands [] = Inr ex2_ALIASES \<and>
   commands_loop ex2_ALIASES ex2_permissions [] = Inr ex2_nodes \<and>
   \<not> (\<exists>r \<in> set ex2_commands. has_aliases (JStr (str ''kick'')) r) \<and>
   nodes_for (str ''kick'') ex2_permissions = [str ''staff.kick''] \<and>
   map_of ex2_ALIASES (JStr (str ''kick'')) = None \<and> map_of ex2_nodes (str ''kick'') = None \<and>
   \<not> (\<exists>(k, als) \<in> set ex2_ALIASES. str ''kick'' \<in> set als) \<and>
   (\<exists>gs. fst (main ex2_commands ex2_permissions) =
        takeWhile (list_all encodable)
          (concat (map (\<lambda>(cmd, node, names).
             map (\<lambda>n. n @ [32, 61, 32, 34] @ node @ [34]) names) gs)) \<and>
      (\<forall>(cmd, node, names) \<in> set gs.
         cmd \<noteq> str ''kick'' \<and> map_of ex2_nodes cmd = Some node \<and>
         (\<exists>als. map_of ex2_ALIASES (JStr cmd) = Some als \<and> set names = insert cmd (set als))) \<and>
      (\<forall>(cmd, node, names) \<in> set gs. str ''kick'' \<notin> set names))"
proof -
  have h3: "\<forall>r \<in> set ex2_commands. \<not> has_aliases (JStr (str ''kick'')) r"
    by (simp add: ex2_commands_def str_def)
  have h4: "nodes_for (str ''kick'') ex2_permissions = [str ''staff.kick'']"
    by (simp add: ex2_permissions_def nodes_for_def map_filter_simps str_def)
  have h5: "\<forall>(k, als) \<in> set ex2_ALIASES. str ''kick'' \<notin> set als"
    by (simp add: ex2_ALIASES_def str_def)
  show ?thesis
    using ex2_aliases_loop ex2_commands_loop h3 h4 h5
      no_alias_field_no_group [OF ex2_aliases_loop ex2_commands_loop h3]
    by blast
qed

text \<open>
  Claim C10, as the specification has it: whenever a command with a blank alias receives a
  node, the output has a line with the empty name. Here the alias field of \<open>mute\<close> is one
  space, its alias list holds the empty string and it receives a node, but the node has a
  surrogate: the \<open>print\<close> of the line with the empty name raises and nothing is printed.
\<close>

theorem blank_alias_line_counterexample:
  "aliases_loop ex_surrogate_commands [] = Inr [(JStr (str ''mute''), [[]])] \<and>
   commands_loop [(JStr (str ''mute''), [[]])] ex_surrogate_permissions [] =
     Inr [(str ''mute'', [55296])] \<and>
   main ex_surrogate_commands ex_surrogate_permissions = ([], Some UnicodeEncodeError)"
  by (simp add: eval_defs ex_surrogate_commands_def ex_surrogate_permissions_def)

text \<open>
  Claim C10, amended. Take the last command record for the name \<open>c\<close> with a non-empty alias
  field \<open>raw\<close>. When \<open>raw\<close> consists of whitespace and commas only, or more generally has a
  piece between commas that is empty or all whitespace, the alias list of \<open>c\<close> contains
  the empty string (and nothing else in the first case). When moreover \<open>c\<close> has a node and
  the run ends normally, the output has a line with the empty name: a space, an equals
  sign, a space and the node in double quotes.
\<close>

theorem blank_alias_line:
  assumes "commands_json = before @ [pl, JStr c, JStr raw, desc, helpText] # after"
    and "aliases_loop commands_json [] = Inr ALIASES"
    and "commands_loop ALIASES permissions_json [] = Inr commands"
    and "raw \<noteq> []" and "\<forall>r \<in> set after. \<not> has_aliases (JStr c) r"
    and "list_all (\<lambda>ch. isspace ch \<or> ch = comma) raw \<or> blank_piece raw"
    and "map_of commands c = Some node"
    and "snd (main commands_json permissions_json) = None"
  shows "\<exists>als. map_of ALIASES (JStr c) = Some als \<and> [] \<in> set als \<and>
           (list_all (\<lambda>ch. isspace ch \<or> ch = comma) raw \<longrightarrow> set als = {[]}) \<and>
           [32, 61, 32, 34] @ node @ [34] \<in> set (fst (main commands_json permissions_json))"
proof -
  let ?als = "map strip (split_comma raw)"
  have a: "map_of ALIASES (JStr c) = Some ?als"
    using aliases_loop_last [OF assms(2) [unfolded assms(1)] assms(4,5)] .
  have all: "set ?als = {[]}" if "list_all (\<lambda>ch. isspace ch \<or> ch = comma) raw"
  proof -
    have "list_all (list_all isspace) (split_comma raw)"
      using that by (rule only_spaces_and_commas)
    then have z: "\<forall>p \<in> set (split_comma raw). strip p = []"
      using strip_blank by (simp add: list_all_iff)
    obtain p where p: "p \<in> set (split_comma raw)"
      using split_comma_nonempty [of raw] by (cases "split_comma raw") auto
    have "set ?als \<subseteq> {[]}" using z by auto
    moreover have "[] \<in> set ?als" using z p by force
    ultimately show ?thesis by blast
  qed
  have e: "[] \<in> set ?als"
  proof (cases "list_all (\<lambda>ch. isspace ch \<or> ch = comma) raw")
    case True
    then show ?thesis using all by blast
  next
    case False
    then have "blank_piece raw" using assms(6) by simp
    then obtain p where "p \<in> set (split_comma raw)" "list_all isspace p"
      by (auto simp: blank_piece_def list_ex_iff)
    then show ?thesis using strip_blank by force
  qed
  let ?ks = "sort (remdups (map fst commands))"
  let ?f = "\<lambda>cmd. print_group (group_of ALIASES commands cmd)"
  have "map_of commands c \<noteq> None" using assms(7) by simp
  then have "c \<in> fst ` set commands" by (simp add: map_of_eq_None_iff)
  then have k: "c \<in> set ?ks" by simp
  have "?f c = map (\<lambda>n. n @ [32, 61, 32, 34] @ node @ [34]) (sort (remdups (c # ?als)))"
    using a assms(7)
    by (simp add: print_group_def group_of_def node_at_def aliases_at_def line_code_points)
  moreover have "[] \<in> set (sort (remdups (c # ?als)))" using e by simp
  ultimately have "[] @ [32, 61, 32, 34] @ node @ [34] \<in> set (?f c)"
    by (metis (no_types, lifting) imageI image_set)
  then have "[32, 61, 32, 34] @ node @ [34] \<in> set (concat (map ?f ?ks))" using k by auto
  moreover have "main commands_json permissions_json = (concat (map ?f ?ks), None)"
    using main_groups [OF assms(2,3)] assms(8) emit_None by simp
  ultimately have "[32, 61, 32, 34] @ node @ [34] \<in> set (fst (main commands_json permissions_json))"
    by simp
  then show ?thesis using a e all by simp
qed

theorem blank_alias_line_witness:
  \<open>ex2_commands =
     [[JStr (str ''any''), JStr (str ''warn''), JStr (str ''w, warn ,w''), JStr (str ''d''), JStr (str ''h'')],
      [JStr (str ''any''), JStr (str ''ban''), JStr (str ''b, banish''), JStr (str ''d''), JStr (str ''h'')],
      [JStr (str ''any''), JStr (str ''kick''), JStr (str ''''), JStr (str ''d''), JStr (str ''h'')]] @
     [JStr (str ''any''), JStr (str ''mute''), JStr (str ''m,''), JStr (str ''d''), JNull] # [] \<and>
   aliases_loop ex2_commands [] = Inr ex2_ALIASES \<and>
   commands_loop ex2_ALIASES ex2_permissions [] = Inr ex2_nodes \<and>
   str ''m,'' \<noteq> [] \<and> blank_piece (str ''m,'') \<and>
   map_of ex2_nodes (str ''mute'') = Some (str ''staff.mute'') \<and>
   snd (main ex2_commands ex2_permissions) = None \<and>
   map_of ex2_ALIASES (JStr (str ''mute'')) = Some [str ''m'', []] \<and>
   str '' = "staff.mute"'' \<in> set (fst (main ex2_commands ex2_permissions))\<close>
proof -
  have h1: "ex2_commands =
     [[JStr (str ''any''), JStr (str ''warn''), JStr (str ''w, warn ,w''), JStr (str ''d''), JStr (str ''h'')],
      [JStr (str ''any''), JStr (str ''ban''), JStr (str ''b, banish''), JStr (str ''d''), JStr (str ''h'')],
      [JStr (str ''any''), JStr (str ''kick''), JStr (str ''''), JStr (str ''d''), JStr (str ''h'')]] @
     [JStr (str ''any''), JStr (str ''mute''), JStr (str ''m,''), JStr (str ''d''), JNull] # []"
    by (simp add: ex2_commands_def)
  have h4: "str ''m,'' \<noteq> []" by (simp add: str_def)
  have h5: "\<forall>r \<in> set []. \<not> has_aliases (JStr (str ''mute'')) r" by simp
  have b: "blank_piece (str ''m,'')" by (simp add: blank_piece_def str_def comma_def)
  then have h6: "list_all (\<lambda>ch. isspace ch \<or> ch = comma) (str ''m,'') \<or> blank_piece (str ''m,'')"
    by simp
  have h7: "map_of ex2_nodes (str ''mute'') = Some (str ''staff.mute'')"
    by (simp add: ex2_nodes_def str_def)
  have h8: "snd (main ex2_commands ex2_permissions) = None" by (simp add: ex2_output)
  have a: "map_of ex2_ALIASES (JStr (str ''mute'')) = Some [str ''m'', []]"
    by (simp add: ex2_ALIASES_def str_def)
  have "[32, 61, 32, 34] @ str ''staff.mute'' @ [34] \<in> set (fst (main ex2_commands ex2_permissions))"
    using blank_alias_line [OF h1 ex2_aliases_loop ex2_commands_loop h4 h5 h6 h7 h8] by blast
  moreover have \<open>[32, 61, 32, 34] @ str ''staff.mute'' @ [34] = str '' = "staff.mute"''\<close>
    by (simp add: str_def)
  ultimately show ?thesis
    using h1 ex2_aliases_loop ex2_commands_loop h4 b h7 h8 a by simp
qed

end
